theory Spec2Isabelle
  imports Main "HOL-Library.Sublist"
begin

section \<open>POSIX path operations of the Node runtime\<close>

text \<open>
  \<^verbatim>\<open>WorkspaceTracker.ts\<close> and \<^verbatim>\<open>git-ignore.ts\<close> call \<^verbatim>\<open>path.resolve\<close>,
  \<^verbatim>\<open>path.basename\<close>, \<^verbatim>\<open>path.dirname\<close>, \<^verbatim>\<open>path.join\<close> and
  \<^verbatim>\<open>path.parse(..).root\<close>.  They are modelled here as Node's \<^verbatim>\<open>path.posix\<close>
  computes them; the separator tests of the code (\<^verbatim>\<open>endsWith("/")\<close>) are POSIX ones too.
  Paths are strings, as in the code.
\<close>

definition endsWithSlash :: "string \<Rightarrow> bool" where
  "endsWithSlash s = (s \<noteq> [] \<and> last s = CHR ''/'')"

text \<open>\<^verbatim>\<open>s.split("/")\<close>: the pieces between separators, empty pieces included.\<close>

fun split_sep :: "string \<Rightarrow> string list" where
  "split_sep [] = [[]]"
| "split_sep (c # cs) =
     (if c = CHR ''/'' then [] # split_sep cs
      else (case split_sep cs of [] \<Rightarrow> [[c]] | s # ss \<Rightarrow> (c # s) # ss))"

fun join_sep :: "string list \<Rightarrow> string" where
  "join_sep [] = []"
| "join_sep [s] = s"
| "join_sep (s # t # ss) = s @ CHR ''/'' # join_sep (t # ss)"

text \<open>
  Node's \<^verbatim>\<open>normalizeString(path, allowAboveRoot, "/")\<close>, segment by segment: empty
  segments and \<^verbatim>\<open>.\<close> are dropped; \<^verbatim>\<open>..\<close> removes the last segment kept so far, unless
  there is none or it is itself \<^verbatim>\<open>..\<close>, in which case \<^verbatim>\<open>..\<close> is kept when
  \<^verbatim>\<open>allowAboveRoot\<close> holds and dropped otherwise.
\<close>

fun normalizeSegs :: "bool \<Rightarrow> string list \<Rightarrow> string list \<Rightarrow> string list" where
  "normalizeSegs allowAboveRoot res [] = res"
| "normalizeSegs allowAboveRoot res (s # ss) =
     (if s = [] \<or> s = ''.'' then normalizeSegs allowAboveRoot res ss
      else if s = ''..'' then
        (if res \<noteq> [] \<and> last res \<noteq> ''..'' then normalizeSegs allowAboveRoot (butlast res) ss
         else if allowAboveRoot then normalizeSegs allowAboveRoot (res @ [''..'']) ss
         else normalizeSegs allowAboveRoot res ss)
      else normalizeSegs allowAboveRoot (res @ [s]) ss)"

definition normalizeString :: "string \<Rightarrow> bool \<Rightarrow> string" where
  "normalizeString path allowAboveRoot =
     join_sep (normalizeSegs allowAboveRoot [] (split_sep path))"

text \<open>
  The loop of \<^verbatim>\<open>path.resolve\<close>: arguments are taken from the right (the list given here
  is already reversed, the process's working directory last) until an absolute one is met.
\<close>

fun resolve_loop :: "string list \<Rightarrow> string \<Rightarrow> string \<times> bool" where
  "resolve_loop [] resolvedPath = (resolvedPath, False)"
| "resolve_loop (p # ps) resolvedPath =
     (if p = [] then resolve_loop ps resolvedPath
      else if hd p = CHR ''/'' then (p @ CHR ''/'' # resolvedPath, True)
      else resolve_loop ps (p @ CHR ''/'' # resolvedPath))"

definition path_resolve :: "string \<Rightarrow> string list \<Rightarrow> string" where
  "path_resolve processCwd args =
     (case resolve_loop (rev args @ [processCwd]) [] of
        (resolvedPath, resolvedAbsolute) \<Rightarrow>
          (let norm = normalizeString resolvedPath (\<not> resolvedAbsolute)
           in if resolvedAbsolute then CHR ''/'' # norm
              else if norm \<noteq> [] then norm else ''.''))"

text \<open>\<^verbatim>\<open>path.basename(p)\<close>: trailing separators are skipped, then the last segment is taken.\<close>

definition path_basename :: "string \<Rightarrow> string" where
  "path_basename p =
     rev (takeWhile (\<lambda>c. c \<noteq> CHR ''/'') (dropWhile (\<lambda>c. c = CHR ''/'') (rev p)))"

text \<open>
  \<^verbatim>\<open>path.dirname(p)\<close>: scanning from the right, down to index 1, trailing separators are
  skipped, then the last segment; \<^verbatim>\<open>end\<close> is the index of the separator met next.
\<close>

definition path_dirname :: "string \<Rightarrow> string" where
  "path_dirname p =
     (if p = [] then ''.''
      else
        (let hasRoot = (hd p = CHR ''/'');
             scan = dropWhile (\<lambda>c. c \<noteq> CHR ''/'') (dropWhile (\<lambda>c. c = CHR ''/'') (rev (tl p)))
         in if scan = [] then (if hasRoot then ''/'' else ''.'')
            else if hasRoot \<and> tl scan = [] then ''//''
            else hd p # rev (tl scan)))"

text \<open>\<^verbatim>\<open>path.parse(p).root\<close>\<close>

definition parse_root :: "string \<Rightarrow> string" where
  "parse_root p = (if p \<noteq> [] \<and> hd p = CHR ''/'' then ''/'' else [])"

text \<open>\<^verbatim>\<open>path.normalize\<close> and \<^verbatim>\<open>path.join\<close> of two arguments.\<close>

definition path_normalize :: "string \<Rightarrow> string" where
  "path_normalize p =
     (if p = [] then ''.''
      else
        (let isAbsolute = (hd p = CHR ''/'');
             trailingSeparator = (last p = CHR ''/'');
             norm = normalizeString p (\<not> isAbsolute)
         in if norm = [] then (if isAbsolute then ''/'' else if trailingSeparator then ''./'' else ''.'')
            else (let norm' = (if trailingSeparator then norm @ ''/'' else norm)
                  in if isAbsolute then CHR ''/'' # norm' else norm')))"

definition path_join :: "string \<Rightarrow> string \<Rightarrow> string" where
  "path_join a b =
     (let joined = join_sep (filter (\<lambda>s. s \<noteq> []) [a, b])
      in if joined = [] then ''.'' else path_normalize joined)"


section \<open>Collaborators and state of the tracker\<close>

text \<open>
  What the two files take from outside: the module constant \<^verbatim>\<open>cwd\<close> (the first workspace
  folder, undefined when there is none), \<^verbatim>\<open>process.cwd()\<close>, the matching libraries
  (\<^verbatim>\<open>ignore\<close>, \<^verbatim>\<open>micromatch.isMatch\<close> with \<^verbatim>\<open>{dot: true}\<close>) as black boxes,
  \<^verbatim>\<open>path.relative\<close>, \<^verbatim>\<open>toPosix\<close>, and the exclusion globs \<^verbatim>\<open>getDirsToIgnore()\<close> read once
  when the watcher is registered.  An \<^verbatim>\<open>ignore()\<close> instance is the list of the file contents
  added to it, in the order of the \<^verbatim>\<open>add\<close> calls.  Its method \<^verbatim>\<open>ignores\<close> checks the name it
  is given before it matches, and throws on a name it does not accept (the empty name, a
  name that is not relative to the directory): it gives an exception or a verdict.
\<close>

datatype error = TypeError | RangeError

record platform =
  cwd :: "string option"
  processCwd :: string
  ignores :: "string list \<Rightarrow> string \<Rightarrow> error + bool"
  isMatch :: "string \<Rightarrow> string list \<Rightarrow> bool"
  path_relative :: "string \<Rightarrow> string \<Rightarrow> string"
  toPosix :: "string \<Rightarrow> string"
  configGlobsToIgnore :: "string list"

text \<open>\<^verbatim>\<open>cwd\<close> where the code tests it for truth: undefined and the empty string are falsy.\<close>

definition project_root :: "platform \<Rightarrow> string option" where
  "project_root P = (case cwd P of None \<Rightarrow> None | Some c \<Rightarrow> if c = [] then None else Some c)"

text \<open>\<^verbatim>\<open>cwd || process.cwd()\<close>, the workspace path given to the \<^verbatim>\<open>GitIgnoreProcessor\<close>.\<close>

definition workspacePath :: "platform \<Rightarrow> string" where
  "workspacePath P = (case project_root P of None \<Rightarrow> processCwd P | Some c \<Rightarrow> c)"

datatype message = WorkspaceUpdated "string list"

text \<open>The closures this file hands to \<^verbatim>\<open>addEventToNotifyQueue\<close>.\<close>

datatype task = Created string | Deleted string | Changed string | Rescan

datatype stat_outcome = StatFailed | StatType bool

datatype listing = ListingFailed | Listing "string list" bool

datatype file_read = Absent | Unreadable | Content string

text \<open>
  The fields of a \<^verbatim>\<open>WorkspaceTracker\<close>.  \<^verbatim>\<open>filePaths\<close> is a JavaScript \<^verbatim>\<open>Set\<close>: its elements
  in insertion order.  \<^verbatim>\<open>provider\<close> is what \<^verbatim>\<open>providerRef.deref()\<close> gives: the messages posted
  to the webview so far, or nothing once the provider is gone.  \<^verbatim>\<open>workspaceDidUpdateTimeout\<close>
  holds the handle of the last \<^verbatim>\<open>setTimeout\<close> (handles are numbered), \<^verbatim>\<open>timerPending\<close>
  says whether that timer is still to fire.  The promise chain \<^verbatim>\<open>notifyQueue\<close> is the list of
  tasks not yet started, \<^verbatim>\<open>awaitingStat\<close> the path whose \<^verbatim>\<open>stat\<close> the task at the front of the
  chain awaits, and \<^verbatim>\<open>pendingScans\<close> counts the calls of \<^verbatim>\<open>initializeFilePaths\<close> made by
  queued tasks that still await \<^verbatim>\<open>listFiles\<close>.
\<close>

record tracker =
  filePaths :: "string list"
  needReInit :: bool
  eventCount :: nat
  workspaceDidUpdateTimeout :: "nat option"
  timerPending :: bool
  gitignoreCache :: "string \<rightharpoonup> string list"
  provider :: "message list option"
  notifyQueue :: "task list"
  awaitingStat :: "string option"
  pendingScans :: nat

text \<open>
  The constants of the class.  \<^verbatim>\<open>DEBOUNCE_DELAY\<close> has no counterpart: time is not
  measured here, a pending timer fires at some later moment.
\<close>

definition EVENT_FLOOD_SZ :: nat where
  "EVENT_FLOOD_SZ = 100"

definition maxContextFiles :: nat where
  "maxContextFiles = 1000"

text \<open>\<^verbatim>\<open>Set.prototype.add\<close> and \<^verbatim>\<open>Set.prototype.delete\<close>.\<close>

definition set_add :: "string \<Rightarrow> string list \<Rightarrow> string list" where
  "set_add x xs = (if x \<in> set xs then xs else xs @ [x])"

definition set_delete :: "string \<Rightarrow> string list \<Rightarrow> bool \<times> string list" where
  "set_delete x xs = (x \<in> set xs, removeAll x xs)"

section \<open>WorkspaceTracker\<close>

definition normalizeFilePath :: "platform \<Rightarrow> string \<Rightarrow> string" where
  "normalizeFilePath P filePath =
     (let resolvedPath =
            (case project_root P of
               Some root \<Rightarrow> path_resolve (processCwd P) [root, filePath]
             | None \<Rightarrow> path_resolve (processCwd P) [filePath])
      in if endsWithSlash filePath then resolvedPath @ ''/'' else resolvedPath)"

definition workspaceDidUpdate :: "platform \<Rightarrow> tracker \<Rightarrow> tracker" where
  "workspaceDidUpdate P s =
     (case project_root P of
        None \<Rightarrow> s
      | Some root \<Rightarrow>
          (case provider s of
             None \<Rightarrow> s
           | Some inbox \<Rightarrow>
               s\<lparr>provider := Some (inbox @
                   [WorkspaceUpdated
                      (map (\<lambda>file.
                              let relativePath = toPosix P (path_relative P root file)
                              in if endsWithSlash file then relativePath @ ''/'' else relativePath)
                           (take maxContextFiles (filePaths s)))])\<rparr>))"

text \<open>
  \<^verbatim>\<open>initializeFilePaths\<close> up to its \<^verbatim>\<open>await listFiles(cwd, true, maxContextFiles)\<close>: the
  request made to the lister (none when there is no project root), and the state left.
\<close>

definition initializeFilePaths_begin ::
  "platform \<Rightarrow> tracker \<Rightarrow> (string \<times> bool \<times> nat) option \<times> tracker" where
  "initializeFilePaths_begin P s =
     (case project_root P of
        None \<Rightarrow> (None, s)
      | Some root \<Rightarrow> (Some (root, True, maxContextFiles), s\<lparr>filePaths := []\<rparr>))"

text \<open>
  \<^verbatim>\<open>initializeFilePaths\<close> from the moment \<^verbatim>\<open>listFiles\<close> settles.  When it rejects, the
  rest of the function does not run.
\<close>

definition initializeFilePaths_resume :: "platform \<Rightarrow> listing \<Rightarrow> tracker \<Rightarrow> tracker" where
  "initializeFilePaths_resume P l s =
     (case l of
        ListingFailed \<Rightarrow> s
      | Listing files truncated \<Rightarrow>
          workspaceDidUpdate P
            (s\<lparr>filePaths := fold (\<lambda>file paths. set_add (normalizeFilePath P file) paths) files [],
               needReInit := False\<rparr>))"

text \<open>An awaited call of \<^verbatim>\<open>initializeFilePaths\<close>, with nothing else running meanwhile.\<close>

definition initializeFilePaths ::
  "platform \<Rightarrow> (string \<Rightarrow> bool \<Rightarrow> nat \<Rightarrow> listing) \<Rightarrow> tracker \<Rightarrow> tracker" where
  "initializeFilePaths P listFiles s =
     (case initializeFilePaths_begin P s of
        (None, s') \<Rightarrow> s'
      | (Some (root, recursive, limit), s') \<Rightarrow>
          initializeFilePaths_resume P (listFiles root recursive limit) s')"

text \<open>
  \<^verbatim>\<open>addFilePath\<close>, given how \<^verbatim>\<open>vscode.workspace.fs.stat\<close> settled.  Nothing of the
  tracker is read or written before the \<^verbatim>\<open>await\<close>, so the function acts on the state
  found when \<^verbatim>\<open>stat\<close> settles.
\<close>

definition addFilePath :: "platform \<Rightarrow> string \<Rightarrow> stat_outcome \<Rightarrow> tracker \<Rightarrow> string \<times> tracker" where
  "addFilePath P filePath st s =
     (let normalizedPath = normalizeFilePath P filePath
      in case st of
           StatFailed \<Rightarrow> (normalizedPath, s\<lparr>filePaths := set_add normalizedPath (filePaths s)\<rparr>)
         | StatType isDirectory \<Rightarrow>
             (let pathWithSlash =
                    (if isDirectory \<and> \<not> endsWithSlash normalizedPath
                     then normalizedPath @ ''/'' else normalizedPath);
                  s1 = (if isDirectory then s\<lparr>needReInit := True\<rparr> else s);
                  s2 = (if path_basename normalizedPath = ''.gitignore''
                        then s1\<lparr>gitignoreCache := Map.empty, needReInit := True\<rparr> else s1)
              in (pathWithSlash, s2\<lparr>filePaths := set_add pathWithSlash (filePaths s2)\<rparr>)))"

definition removeFilePath :: "platform \<Rightarrow> string \<Rightarrow> tracker \<Rightarrow> bool \<times> tracker" where
  "removeFilePath P filePath s =
     (let normalizedPath = normalizeFilePath P filePath;
          (isFile, paths1) = set_delete normalizedPath (filePaths s);
          s1 = s\<lparr>filePaths := paths1\<rparr>;
          s2 = (if \<not> isFile then s1\<lparr>needReInit := True\<rparr> else s1);
          s3 = (if path_basename normalizedPath = ''.gitignore''
                then s2\<lparr>gitignoreCache := Map.empty, needReInit := True\<rparr> else s2)
      in if isFile then (True, s3)
         else (let (isDir, paths2) = set_delete (normalizedPath @ ''/'') (filePaths s3)
               in (isDir, s3\<lparr>filePaths := paths2\<rparr>)))"

definition incrementEventAndDetectFlood :: "tracker \<Rightarrow> tracker" where
  "incrementEventAndDetectFlood s =
     (let old = eventCount s;
          s1 = s\<lparr>eventCount := old + 1\<rparr>
      in if old > EVENT_FLOOD_SZ then s1\<lparr>needReInit := True\<rparr> else s1)"

section \<open>GitIgnoreProcessor\<close>

text \<open>
  The loop of \<^verbatim>\<open>getGitignoreRulesForPath\<close>.  The file system is a function from a path to
  what \<^verbatim>\<open>fs.existsSync\<close> and \<^verbatim>\<open>fs.readFileSync\<close> find there.  The loop need not end
  (\<^verbatim>\<open>path.dirname(".")\<close> is \<^verbatim>\<open>"."\<close>), so not returning is the value \<open>None\<close>.
\<close>

partial_function (option) getGitignoreRules_loop ::
  "(string \<Rightarrow> file_read) \<Rightarrow> string \<Rightarrow> string \<Rightarrow> string list \<Rightarrow> string list option" where
  "getGitignoreRules_loop fs wsPath currentDir gitignoreInstance =
     (if prefix wsPath currentDir \<and> currentDir \<noteq> parse_root currentDir then
        (let gitignoreInstance' =
               (case fs (path_join currentDir ''.gitignore'') of
                  Content content \<Rightarrow> gitignoreInstance @ [content]
                | Unreadable \<Rightarrow> gitignoreInstance
                | Absent \<Rightarrow> gitignoreInstance)
         in if currentDir = wsPath then Some gitignoreInstance'
            else getGitignoreRules_loop fs wsPath (path_dirname currentDir) gitignoreInstance')
      else Some gitignoreInstance)"

declare getGitignoreRules_loop.simps [code]

definition getGitignoreRulesForPath ::
  "(string \<Rightarrow> file_read) \<Rightarrow> string \<Rightarrow> string \<Rightarrow> (string \<rightharpoonup> string list)
     \<Rightarrow> (string list \<times> (string \<rightharpoonup> string list)) option" where
  "getGitignoreRulesForPath fs wsPath dir cache =
     (case cache dir of
        Some rules \<Rightarrow> Some (rules, cache)
      | None \<Rightarrow>
          (case getGitignoreRules_loop fs wsPath dir [] of
             None \<Rightarrow> None
           | Some gitignoreInstance \<Rightarrow> Some (gitignoreInstance, cache(dir \<mapsto> gitignoreInstance))))"

text \<open>
  \<^verbatim>\<open>shouldIgnoreFile\<close>: an exception of \<^verbatim>\<open>gitignoreRules.ignores\<close> is not caught here, it
  leaves the function; the rule set looked up has been cached by then.
\<close>

definition shouldIgnoreFile ::
  "platform \<Rightarrow> (string \<Rightarrow> file_read) \<Rightarrow> string \<Rightarrow> string list \<Rightarrow> (string \<rightharpoonup> string list)
     \<Rightarrow> ((error + bool) \<times> (string \<rightharpoonup> string list)) option" where
  "shouldIgnoreFile P fs filePath exclusionGlobs cache =
     (let fileDir = path_dirname filePath
      in case getGitignoreRulesForPath fs (workspacePath P) fileDir cache of
           None \<Rightarrow> None
         | Some (gitignoreRules, cache') \<Rightarrow>
             (case ignores P gitignoreRules (path_relative P fileDir filePath) of
                Inl err \<Rightarrow> Some (Inl err, cache')
              | Inr matched \<Rightarrow>
                  Some (Inr (if matched then True else isMatch P filePath exclusionGlobs), cache')))"

section \<open>Event handlers, debounce timer and queue\<close>

definition shouldIgnoreGlob ::
  "platform \<Rightarrow> (string \<Rightarrow> file_read) \<Rightarrow> string \<Rightarrow> string list \<Rightarrow> tracker
     \<Rightarrow> ((error + bool) \<times> tracker) option" where
  "shouldIgnoreGlob P fs filePath exclusionGlobs s =
     (case shouldIgnoreFile P fs filePath [] (gitignoreCache s) of
        None \<Rightarrow> None
      | Some (Inl err, cache') \<Rightarrow> Some (Inl err, s\<lparr>gitignoreCache := cache'\<rparr>)
      | Some (Inr ignored, cache') \<Rightarrow>
          Some (Inr (if ignored then True else isMatch P filePath exclusionGlobs),
                s\<lparr>gitignoreCache := cache'\<rparr>))"

text \<open>\<^verbatim>\<open>clearTimeout\<close> of the handle held, then a new \<^verbatim>\<open>setTimeout\<close>.\<close>

definition triggerWorkspaceDidUpdate :: "tracker \<Rightarrow> tracker" where
  "triggerWorkspaceDidUpdate s =
     s\<lparr>workspaceDidUpdateTimeout :=
          Some (case workspaceDidUpdateTimeout s of None \<Rightarrow> 0 | Some h \<Rightarrow> Suc h),
        timerPending := True\<rparr>"

text \<open>
  A call of \<^verbatim>\<open>addEventToNotifyQueue\<close> with one of the closures of this file: the task
  joins the tracker's chain, behind those submitted before it.
\<close>

definition enqueueTask :: "task \<Rightarrow> tracker \<Rightarrow> tracker" where
  "enqueueTask t s = s\<lparr>notifyQueue := notifyQueue s @ [t]\<rparr>"

text \<open>The callback given to \<^verbatim>\<open>setTimeout\<close>.\<close>

definition timerCallback :: "platform \<Rightarrow> tracker \<Rightarrow> tracker" where
  "timerCallback P s =
     (let s1 = (if needReInit s then enqueueTask Rescan s else workspaceDidUpdate P s)
      in s1\<lparr>eventCount := 0\<rparr>)"

text \<open>
  The three watcher closures up to their first \<^verbatim>\<open>await\<close> or their end.  The result says
  how far the closure got: its promise has settled, fulfilled (\<open>Settled\<close>) or rejected by
  an exception (\<open>Threw\<close>), or it awaits \<^verbatim>\<open>stat\<close> of a path.
\<close>

datatype progress = Settled | Threw error | AwaitStat string

definition waitingFor :: "progress \<Rightarrow> string option" where
  "waitingFor reached =
     (case reached of AwaitStat fsPath \<Rightarrow> Some fsPath | Threw err \<Rightarrow> None | Settled \<Rightarrow> None)"

definition onDidCreate_task ::
  "platform \<Rightarrow> (string \<Rightarrow> file_read) \<Rightarrow> string \<Rightarrow> tracker \<Rightarrow> (progress \<times> tracker) option" where
  "onDidCreate_task P fs fsPath s =
     (case shouldIgnoreGlob P fs fsPath (configGlobsToIgnore P) (incrementEventAndDetectFlood s) of
        None \<Rightarrow> None
      | Some (Inl err, s1) \<Rightarrow> Some (Threw err, s1)
      | Some (Inr ignored, s1) \<Rightarrow>
          if ignored then Some (Settled, s1) else Some (AwaitStat fsPath, s1))"

definition onDidDelete_task ::
  "platform \<Rightarrow> (string \<Rightarrow> file_read) \<Rightarrow> string \<Rightarrow> tracker \<Rightarrow> (progress \<times> tracker) option" where
  "onDidDelete_task P fs fsPath s =
     (case shouldIgnoreGlob P fs fsPath (configGlobsToIgnore P) (incrementEventAndDetectFlood s) of
        None \<Rightarrow> None
      | Some (Inl err, s1) \<Rightarrow> Some (Threw err, s1)
      | Some (Inr ignored, s1) \<Rightarrow>
          if ignored then Some (Settled, s1)
          else (case removeFilePath P fsPath s1 of
                  (removed, s2) \<Rightarrow>
                    if removed then Some (Settled, triggerWorkspaceDidUpdate s2)
                    else Some (Settled, s2)))"

definition onDidChange_task ::
  "platform \<Rightarrow> (string \<Rightarrow> file_read) \<Rightarrow> string \<Rightarrow> tracker \<Rightarrow> (progress \<times> tracker) option" where
  "onDidChange_task P fs fsPath s =
     (case shouldIgnoreGlob P fs fsPath (configGlobsToIgnore P) (incrementEventAndDetectFlood s) of
        None \<Rightarrow> None
      | Some (Inl err, s1) \<Rightarrow> Some (Threw err, s1)
      | Some (Inr ignored, s1) \<Rightarrow>
          if ignored then Some (Settled, s1)
          else Some (AwaitStat fsPath, snd (removeFilePath P fsPath s1)))"

text \<open>
  The rest of the create and change closures, once \<^verbatim>\<open>stat\<close> has settled:
  \<^verbatim>\<open>await this.addFilePath(uri.fsPath); this.triggerWorkspaceDidUpdate()\<close>.
\<close>

definition afterStat :: "platform \<Rightarrow> string \<Rightarrow> stat_outcome \<Rightarrow> tracker \<Rightarrow> tracker" where
  "afterStat P fsPath st s = triggerWorkspaceDidUpdate (snd (addFilePath P fsPath st s))"

text \<open>
  The closure queued by the timer: \<^verbatim>\<open>async () => { this.initializeFilePaths() }\<close>.  The call
  is not awaited: the closure's promise settles as soon as \<^verbatim>\<open>initializeFilePaths\<close> has
  reached its \<^verbatim>\<open>await\<close>, and the rest of the scan runs when the lister answers.
\<close>

definition rescan_task :: "platform \<Rightarrow> tracker \<Rightarrow> tracker" where
  "rescan_task P s =
     (case initializeFilePaths_begin P s of
        (None, s') \<Rightarrow> s'
      | (Some request, s') \<Rightarrow> s'\<lparr>pendingScans := Suc (pendingScans s')\<rparr>)"

text \<open>
  What the event loop can run next.  The watcher is registered only when there is a project
  root.  A task of the chain starts only when the one before it has settled
  (\<^verbatim>\<open>notifyQueue.then(() => task())\<close>); a task that threw has settled too, its rejection
  being discarded by the chain's \<^verbatim>\<open>catch\<close>.  An action that cannot happen in the state
  gives \<open>None\<close>.
\<close>

datatype action =
    WatcherEvent task
  | StartNext "string \<Rightarrow> file_read"
  | StatSettles stat_outcome
  | TimerFires
  | ListingSettles listing

definition start_task ::
  "platform \<Rightarrow> (string \<Rightarrow> file_read) \<Rightarrow> task \<Rightarrow> tracker \<Rightarrow> (progress \<times> tracker) option" where
  "start_task P fs t s =
     (case t of
        Created fsPath \<Rightarrow> onDidCreate_task P fs fsPath s
      | Deleted fsPath \<Rightarrow> onDidDelete_task P fs fsPath s
      | Changed fsPath \<Rightarrow> onDidChange_task P fs fsPath s
      | Rescan \<Rightarrow> Some (Settled, rescan_task P s))"

definition step :: "platform \<Rightarrow> action \<Rightarrow> tracker \<Rightarrow> tracker option" where
  "step P a s =
     (case a of
        WatcherEvent t \<Rightarrow>
          (case project_root P of None \<Rightarrow> None | Some root \<Rightarrow> Some (enqueueTask t s))
      | StartNext fs \<Rightarrow>
          (case (awaitingStat s, notifyQueue s) of
             (None, t # rest) \<Rightarrow>
               (case start_task P fs t (s\<lparr>notifyQueue := rest\<rparr>) of
                  None \<Rightarrow> None
                | Some (reached, s') \<Rightarrow> Some (s'\<lparr>awaitingStat := waitingFor reached\<rparr>))
           | _ \<Rightarrow> None)
      | StatSettles st \<Rightarrow>
          (case awaitingStat s of
             Some fsPath \<Rightarrow> Some (afterStat P fsPath st (s\<lparr>awaitingStat := None\<rparr>))
           | None \<Rightarrow> None)
      | TimerFires \<Rightarrow>
          (if timerPending s then Some (timerCallback P (s\<lparr>timerPending := False\<rparr>)) else None)
      | ListingSettles l \<Rightarrow>
          (case pendingScans s of
             Suc n \<Rightarrow> Some (initializeFilePaths_resume P l (s\<lparr>pendingScans := n\<rparr>))
           | 0 \<Rightarrow> None))"

fun run :: "platform \<Rightarrow> action list \<Rightarrow> tracker \<Rightarrow> tracker option" where
  "run P [] s = Some s"
| "run P (a # as) s = (case step P a s of None \<Rightarrow> None | Some s' \<Rightarrow> run P as s')"

text \<open>A tracker as its constructor leaves it.\<close>

definition new_tracker :: "message list option \<Rightarrow> tracker" where
  "new_tracker consumer =
     \<lparr>filePaths = [], needReInit = False, eventCount = 0, workspaceDidUpdateTimeout = None,
      timerPending = False, gitignoreCache = Map.empty, provider = consumer,
      notifyQueue = [], awaitingStat = None, pendingScans = 0\<rparr>"

section \<open>The promise chain of \<^verbatim>\<open>addEventToNotifyQueue\<close>\<close>

text \<open>
  \<^verbatim>\<open>addEventToNotifyQueue\<close> is public and takes any task.  A promise is modelled by the work
  left until it settles: run on the state found, it gives how it settles and the state
  left.  A task \<^verbatim>\<open>() => Promise<void>\<close> is such a piece of work too; what it has written
  before it throws or rejects stays written.
\<close>

datatype 'e settled = Fulfilled | Rejected 'e

type_synonym ('s, 'e) promise = "'s \<Rightarrow> 'e settled \<times> 's"

definition promise_resolve :: "('s, 'e) promise" where
  "promise_resolve s = (Fulfilled, s)"

definition promise_then :: "('s, 'e) promise \<Rightarrow> ('s, 'e) promise \<Rightarrow> ('s, 'e) promise" where
  "promise_then p onFulfilled s =
     (case p s of
        (Fulfilled, s') \<Rightarrow> onFulfilled s'
      | (Rejected err, s') \<Rightarrow> (Rejected err, s'))"

definition promise_catch ::
  "('s, 'e) promise \<Rightarrow> ('e \<Rightarrow> ('s, 'e) promise) \<Rightarrow> ('s, 'e) promise" where
  "promise_catch p onRejected s =
     (case p s of
        (Fulfilled, s') \<Rightarrow> (Fulfilled, s')
      | (Rejected err, s') \<Rightarrow> onRejected err s')"

text \<open>\<^verbatim>\<open>this.notifyQueue = this.notifyQueue.then(() => task()).catch((err) => {})\<close>\<close>

definition addEventToNotifyQueue :: "('s, 'e) promise \<Rightarrow> ('s, 'e) promise \<Rightarrow> ('s, 'e) promise" where
  "addEventToNotifyQueue task queue = promise_catch (promise_then queue task) (\<lambda>err. promise_resolve)"

text \<open>The chain after the given tasks were submitted in turn, from \<^verbatim>\<open>Promise.resolve()\<close>.\<close>

definition submitted :: "('s, 'e) promise list \<Rightarrow> ('s, 'e) promise" where
  "submitted tasks = fold addEventToNotifyQueue tasks promise_resolve"

text \<open>
  What the specification asks of the sequencer: every task runs once, in the order of
  submission, on the state its predecessor left, whether that one failed or not.
\<close>

fun run_in_order :: "('s, 'e) promise list \<Rightarrow> 's \<Rightarrow> 's" where
  "run_in_order [] s = s"
| "run_in_order (t # ts) s = run_in_order ts (snd (t s))"

section \<open>Notions of the specification\<close>

text \<open>
  A clean segment is a file name proper; \<open>abs_path\<close> writes the absolute path with the given
  segments.  The ancestors of a directory inside the project are the directory itself, its
  parent, and so on up to the project root; the merged rule set holds the contents of
  their readable \<^verbatim>\<open>.gitignore\<close> files, in that order.
\<close>

definition clean_seg :: "string \<Rightarrow> bool" where
  "clean_seg s = (s \<noteq> [] \<and> CHR ''/'' \<notin> set s \<and> s \<noteq> ''.'' \<and> s \<noteq> ''..'')"

definition abs_path :: "string list \<Rightarrow> string" where
  "abs_path segs = concat (map (\<lambda>s. CHR ''/'' # s) segs)"

definition gitignore_contents :: "(string \<Rightarrow> file_read) \<Rightarrow> string \<Rightarrow> string list" where
  "gitignore_contents fs dir =
     (case fs (dir @ ''/.gitignore'') of Content content \<Rightarrow> [content] | Unreadable \<Rightarrow> [] | Absent \<Rightarrow> [])"

definition ancestors_upto_root :: "string list \<Rightarrow> string list \<Rightarrow> string list" where
  "ancestors_upto_root rootSegs segs = map (\<lambda>pre. abs_path (rootSegs @ pre)) (rev (prefixes segs))"

definition merged_rules :: "(string \<Rightarrow> file_read) \<Rightarrow> string list \<Rightarrow> string list \<Rightarrow> string list" where
  "merged_rules fs rootSegs segs =
     concat (map (gitignore_contents fs) (ancestors_upto_root rootSegs segs))"

section \<open>A concrete project\<close>

text \<open>
  A project at \<^verbatim>\<open>/proj\<close>, with simple stand-ins for the matching libraries: a rule set
  ignores the names it lists, a glob list matches the paths it lists.  As the \<^verbatim>\<open>ignore\<close>
  package does, the stand-in throws a \<^verbatim>\<open>TypeError\<close> on the empty name and a
  \<^verbatim>\<open>RangeError\<close> on \<^verbatim>\<open>.\<close>, \<^verbatim>\<open>..\<close> and names that start with \<^verbatim>\<open>/\<close>, \<^verbatim>\<open>./\<close> or \<^verbatim>\<open>../\<close>.
\<close>

definition standin_ignores :: "string list \<Rightarrow> string \<Rightarrow> error + bool" where
  "standin_ignores rules name =
     (if name = [] then Inl TypeError
      else if name = ''.'' \<or> name = ''..'' \<or> prefix ''/'' name \<or> prefix ''./'' name
              \<or> prefix ''../'' name
           then Inl RangeError
      else Inr (name \<in> set rules))"

definition proj :: platform where
  "proj = \<lparr>cwd = Some ''/proj'', processCwd = ''/home/user'',
           ignores = standin_ignores,
           isMatch = (\<lambda>p globs. p \<in> set globs),
           path_relative =
             (\<lambda>from to. rev (dropWhile (\<lambda>c. c = CHR ''/'')
                                (rev (dropWhile (\<lambda>c. c = CHR ''/'') (drop (length from) to))))),
           toPosix = (\<lambda>p. p),
           configGlobsToIgnore = []\<rparr>"

definition no_gitignore :: "string \<Rightarrow> file_read" where
  "no_gitignore p = Absent"

definition root_gitignore :: "string \<Rightarrow> file_read" where
  "root_gitignore p = (if p = ''/proj/.gitignore'' then Content ''build'' else Absent)"


text \<open>
  The same project opened at the root of the file system, a \<^verbatim>\<open>.gitignore\<close> at that root,
  and a \<^verbatim>\<open>.gitignore\<close> in a directory beside \<^verbatim>\<open>/proj\<close> whose name starts with \<^verbatim>\<open>/proj\<close>.
\<close>

definition at_root :: platform where
  "at_root = proj\<lparr>cwd := Some ''/''\<rparr>"

definition slash_gitignore :: "string \<Rightarrow> file_read" where
  "slash_gitignore p = (if p = ''/.gitignore'' then Content ''x'' else Absent)"

definition sibling_gitignore :: "string \<Rightarrow> file_read" where
  "sibling_gitignore p = (if p = ''/project/.gitignore'' then Content ''f'' else Absent)"

section \<open>Facts about the path operations\<close>

lemma split_sep_not_Nil: "split_sep p \<noteq> []"
  by (induction p) (auto split: list.splits)

lemma split_sep_no_slash: "s \<in> set (split_sep p) \<Longrightarrow> CHR ''/'' \<notin> set s"
  by (induction p arbitrary: s) (auto split: list.splits if_splits)

lemma split_sep_append: "split_sep (a @ CHR ''/'' # b) = split_sep a @ split_sep b"
  by (induction a) (auto split: list.splits simp: split_sep_not_Nil)

lemma split_sep_single: "CHR ''/'' \<notin> set s \<Longrightarrow> split_sep s = [s]"
  by (induction s) auto

lemma split_sep_join:
  "segs \<noteq> [] \<Longrightarrow> \<forall>s\<in>set segs. CHR ''/'' \<notin> set s \<Longrightarrow> split_sep (join_sep segs) = segs"
  by (induction segs rule: join_sep.induct) (auto simp: split_sep_append split_sep_single)

lemma normalizeSegs_clean:
  "\<forall>s\<in>set ss. clean_seg s \<Longrightarrow> normalizeSegs a res ss = res @ ss"
  by (induction ss arbitrary: res) (auto simp: clean_seg_def)

lemma normalizeSegs_append:
  "normalizeSegs a res (xs @ ys) = normalizeSegs a (normalizeSegs a res xs) ys"
  by (induction xs arbitrary: res) auto

lemma normalizeSegs_empties:
  "\<forall>s\<in>set es. s = [] \<Longrightarrow> normalizeSegs a res es = res"
  by (induction es arbitrary: res) auto

lemma normalizeSegs_False_clean:
  "\<forall>s\<in>set res. clean_seg s \<Longrightarrow> \<forall>s\<in>set ss. CHR ''/'' \<notin> set s \<Longrightarrow>
     \<forall>s\<in>set (normalizeSegs False res ss). clean_seg s"
proof (induction ss arbitrary: res)
  case Nil
  then show ?case by simp
next
  case (Cons s ss)
  have bl: "\<forall>s\<in>set (butlast res). clean_seg s"
    using Cons.prems(1) by (auto dest: in_set_butlastD)
  have ap: "s \<noteq> [] \<Longrightarrow> s \<noteq> ''.'' \<Longrightarrow> s \<noteq> ''..'' \<Longrightarrow> \<forall>t\<in>set (res @ [s]). clean_seg t"
    using Cons.prems by (auto simp: clean_seg_def)
  show ?case
    using Cons.IH [of res] Cons.IH [OF bl] Cons.IH [OF ap] Cons.prems
    by auto
qed

lemma resolve_loop_abs:
  "ps \<noteq> [] \<Longrightarrow> last ps \<noteq> [] \<Longrightarrow> hd (last ps) = CHR ''/'' \<Longrightarrow>
     \<exists>pre. resolve_loop ps acc = (pre @ acc, True)"
proof (induction ps arbitrary: acc)
  case Nil
  then show ?case by simp
next
  case (Cons p ps)
  show ?case
  proof (cases "ps = []")
    case True
    with Cons.prems show ?thesis by (auto intro: exI [of _ "p @ ''/''"])
  next
    case False
    with Cons.prems have l: "last ps \<noteq> []" "hd (last ps) = CHR ''/''" by auto
    from Cons.IH [OF False l] obtain pre where pre: "resolve_loop ps (p @ CHR ''/'' # acc) = (pre @ p @ CHR ''/'' # acc, True)"
      by blast
    from Cons.IH [OF False l] obtain pre' where pre': "resolve_loop ps acc = (pre' @ acc, True)"
      by blast
    show ?thesis
    proof (cases "p = []")
      case True
      with pre' show ?thesis by auto
    next
      case False
      show ?thesis
      proof (cases "hd p = CHR ''/''")
        case True
        with False show ?thesis by (auto intro: exI [of _ "p @ ''/''"])
      next
        case hf: False
        with False pre show ?thesis by (auto intro: exI [of _ "pre @ p @ ''/''"])
      qed
    qed
  qed
qed

lemma path_resolve_form:
  assumes "pcwd \<noteq> []" "hd pcwd = CHR ''/''"
  shows "\<exists>segs. (\<forall>s\<in>set segs. clean_seg s) \<and> path_resolve pcwd args = CHR ''/'' # join_sep segs"
proof -
  from resolve_loop_abs [of "rev args @ [pcwd]" "[]"] assms
  obtain pre where pre: "resolve_loop (rev args @ [pcwd]) [] = (pre, True)"
    by auto
  let ?segs = "normalizeSegs False [] (split_sep pre)"
  have "\<forall>s\<in>set ?segs. clean_seg s"
    by (rule normalizeSegs_False_clean) (auto dest: split_sep_no_slash)
  moreover have "path_resolve pcwd args = CHR ''/'' # join_sep ?segs"
    by (simp add: path_resolve_def pre normalizeString_def)
  ultimately show ?thesis by blast
qed

lemma split_sep_slashes: "set p \<subseteq> {CHR ''/''} \<Longrightarrow> \<forall>s\<in>set (split_sep p). s = []"
  by (induction p) auto

lemma normalizeSegs_join_clean:
  assumes "\<forall>s\<in>set segs. clean_seg s" "set tail \<subseteq> {CHR ''/''}"
  shows "normalizeSegs a [] (split_sep (CHR ''/'' # join_sep segs @ tail @ ''/'')) = segs"
proof (cases "segs = []")
  case True
  have "\<forall>s\<in>set (split_sep (tail @ ''/'')). s = []"
    using assms(2) by (intro split_sep_slashes) auto
  with True show ?thesis by (simp add: normalizeSegs_empties)
next
  case False
  have ns: "\<forall>s\<in>set segs. CHR ''/'' \<notin> set s"
    using assms(1) by (auto simp: clean_seg_def)
  obtain rest where rest: "tail @ ''/'' = CHR ''/'' # rest" "set rest \<subseteq> {CHR ''/''}"
    using assms(2) by (cases tail) auto
  have e: "\<forall>s\<in>set (split_sep rest). s = []"
    using rest(2) by (rule split_sep_slashes)
  have "split_sep (CHR ''/'' # join_sep segs @ tail @ ''/'') = [] # segs @ split_sep rest"
    using split_sep_append [of "join_sep segs" rest] split_sep_join [OF False ns] rest(1) by simp
  then show ?thesis
    using assms(1) e by (simp add: normalizeSegs_append normalizeSegs_clean normalizeSegs_empties)
qed

lemma path_resolve_clean:
  assumes "\<forall>s\<in>set segs. clean_seg s" "set tail \<subseteq> {CHR ''/''}"
  shows "path_resolve pcwd (args @ [CHR ''/'' # join_sep segs @ tail]) = CHR ''/'' # join_sep segs"
  using normalizeSegs_join_clean [OF assms]
  by (simp add: path_resolve_def normalizeString_def)

lemma join_sep_last:
  "segs \<noteq> [] \<Longrightarrow> last segs \<noteq> [] \<Longrightarrow> join_sep segs \<noteq> [] \<and> last (join_sep segs) = last (last segs)"
  by (induction segs rule: join_sep.induct) auto

lemma endsWithSlash_clean:
  assumes "\<forall>s\<in>set segs. clean_seg s"
  shows "endsWithSlash (CHR ''/'' # join_sep segs) = (segs = [])"
proof (cases "segs = []")
  case True
  then show ?thesis by (simp add: endsWithSlash_def)
next
  case False
  with assms have l: "last segs \<noteq> []" "CHR ''/'' \<notin> set (last segs)"
    by (auto simp: clean_seg_def)
  then have "last (last segs) \<noteq> CHR ''/''"
    by (metis last_in_set)
  with join_sep_last [OF False l(1)] False show ?thesis
    by (simp add: endsWithSlash_def)
qed

lemma normalizeFilePath_form:
  assumes "processCwd P \<noteq> []" "hd (processCwd P) = CHR ''/''"
  shows "\<exists>segs. (\<forall>s\<in>set segs. clean_seg s) \<and>
           normalizeFilePath P p = CHR ''/'' # join_sep segs @ (if endsWithSlash p then ''/'' else [])"
proof (cases "project_root P")
  case None
  with path_resolve_form [OF assms, of "[p]"] show ?thesis
    by (auto simp: normalizeFilePath_def)
next
  case (Some root)
  with path_resolve_form [OF assms, of "[root, p]"] show ?thesis
    by (auto simp: normalizeFilePath_def)
qed

lemma normalizeFilePath_clean:
  assumes "\<forall>s\<in>set segs. clean_seg s" "set tail \<subseteq> {CHR ''/''}"
  shows "normalizeFilePath P (CHR ''/'' # join_sep segs @ tail) =
           CHR ''/'' # join_sep segs @ (if endsWithSlash (CHR ''/'' # join_sep segs @ tail) then ''/'' else [])"
proof (cases "project_root P")
  case None
  with path_resolve_clean [OF assms, of "processCwd P" "[]"] show ?thesis
    by (simp add: normalizeFilePath_def)
next
  case (Some root)
  with path_resolve_clean [OF assms, of "processCwd P" "[root]"] show ?thesis
    by (simp add: normalizeFilePath_def)
qed

lemma normalizeFilePath_stable:
  assumes "processCwd P \<noteq> []" "hd (processCwd P) = CHR ''/''"
    and "normalizeFilePath P p \<noteq> ''/''"
  shows "normalizeFilePath P (normalizeFilePath P p) = normalizeFilePath P p
       \<and> endsWithSlash (normalizeFilePath P p) = endsWithSlash p"
proof -
  from normalizeFilePath_form [OF assms(1,2), of p] obtain segs where
    cl: "\<forall>s\<in>set segs. clean_seg s" and
    n: "normalizeFilePath P p = CHR ''/'' # join_sep segs @ (if endsWithSlash p then ''/'' else [])"
    by blast
  show ?thesis
  proof (cases "endsWithSlash p")
    case True
    then have n': "normalizeFilePath P p = CHR ''/'' # join_sep segs @ ''/''" using n by simp
    have e: "endsWithSlash (CHR ''/'' # join_sep segs @ ''/'')" by (simp add: endsWithSlash_def)
    from normalizeFilePath_clean [OF cl, of "''/''" P] e True n' show ?thesis by simp
  next
    case False
    then have n': "normalizeFilePath P p = CHR ''/'' # join_sep segs" using n by simp
    with assms(3) have "segs \<noteq> []" by auto
    then have e: "\<not> endsWithSlash (CHR ''/'' # join_sep segs)"
      using endsWithSlash_clean [OF cl] by simp
    from normalizeFilePath_clean [OF cl, of "[]" P] e False n' show ?thesis by simp
  qed
qed

section \<open>Facts about the walk for \<^verbatim>\<open>.gitignore\<close> files\<close>

lemma abs_path_snoc: "abs_path (xs @ [s]) = abs_path xs @ CHR ''/'' # s"
  by (simp add: abs_path_def)

lemma abs_path_append: "abs_path (xs @ ys) = abs_path xs @ abs_path ys"
  by (simp add: abs_path_def)

lemma abs_path_join: "segs \<noteq> [] \<Longrightarrow> abs_path segs = CHR ''/'' # join_sep segs"
  by (induction segs rule: join_sep.induct) (auto simp: abs_path_def)

lemma abs_path_Cons: "abs_path (x # xs) = CHR ''/'' # x @ abs_path xs"
  by (simp add: abs_path_def)

lemma abs_path_long: "xs \<noteq> [] \<Longrightarrow> hd xs \<noteq> [] \<Longrightarrow> \<exists>c cs. abs_path xs = CHR ''/'' # c # cs"
  by (cases xs; cases "hd xs") (auto simp: abs_path_def)

lemma path_dirname_abs_path:
  assumes "xs \<noteq> []" "clean_seg (hd xs)" "clean_seg s"
  shows "path_dirname (abs_path (xs @ [s])) = abs_path xs"
proof -
  from abs_path_long [OF assms(1)] assms(2) obtain c cs where x: "abs_path xs = CHR ''/'' # c # cs"
    by (auto simp: clean_seg_def)
  have s: "s \<noteq> []" "CHR ''/'' \<notin> set s" using assms(3) by (auto simp: clean_seg_def)
  then have l: "last s \<noteq> CHR ''/''" by (metis last_in_set)
  have d1: "dropWhile (\<lambda>c. c = CHR ''/'') (rev s @ CHR ''/'' # rev (c # cs)) = rev s @ CHR ''/'' # rev (c # cs)"
    using s(1) l by (cases s rule: rev_cases) auto
  have d2: "dropWhile (\<lambda>c. c \<noteq> CHR ''/'') (rev s @ CHR ''/'' # rev (c # cs)) = CHR ''/'' # rev (c # cs)"
    using s(2) by (subst dropWhile_append2) auto
  show ?thesis
    using d1 d2 by (simp add: path_dirname_def abs_path_snoc x Let_def)
qed

lemma clean_gitignore: "clean_seg ''.gitignore''"
  by (simp add: clean_seg_def)

lemma path_join_gitignore:
  assumes "xs \<noteq> []" "\<forall>s\<in>set xs. clean_seg s"
  shows "path_join (abs_path xs) ''.gitignore'' = abs_path xs @ ''/.gitignore''"
proof -
  let ?ys = "xs @ [''.gitignore'']"
  have cl: "\<forall>s\<in>set ?ys. clean_seg s" using assms(2) clean_gitignore by auto
  have ne: "abs_path xs \<noteq> []" using assms by (cases xs) (auto simp: abs_path_def)
  have j: "join_sep (filter (\<lambda>s. s \<noteq> []) [abs_path xs, ''.gitignore'']) = abs_path ?ys"
    using ne by (simp add: abs_path_snoc)
  have a: "abs_path ?ys = CHR ''/'' # join_sep ?ys" by (rule abs_path_join) simp
  have sp: "split_sep (CHR ''/'' # join_sep ?ys) = [] # ?ys"
    using split_sep_join [of ?ys] cl by (auto simp: clean_seg_def)
  have n: "normalizeString (CHR ''/'' # join_sep ?ys) False = join_sep ?ys"
    unfolding normalizeString_def sp using normalizeSegs_clean [OF cl, of False "[]"] by simp
  have jn: "join_sep ?ys \<noteq> []" "last (join_sep ?ys) = CHR ''e''"
    using join_sep_last [of ?ys] by auto
  have "path_normalize (abs_path ?ys) = abs_path ?ys"
    using jn by (simp add: path_normalize_def a n Let_def)
  then show ?thesis
    using j by (simp add: path_join_def abs_path_snoc Let_def)
qed

lemma merged_rules_Nil: "merged_rules fs rootSegs [] = gitignore_contents fs (abs_path rootSegs)"
  by (simp add: merged_rules_def ancestors_upto_root_def)

lemma merged_rules_snoc:
  "merged_rules fs rootSegs (segs @ [s]) =
     gitignore_contents fs (abs_path (rootSegs @ segs @ [s])) @ merged_rules fs rootSegs segs"
  by (simp add: merged_rules_def ancestors_upto_root_def)

lemma loop_step_contents:
  assumes "xs \<noteq> []" "\<forall>s\<in>set xs. clean_seg s"
  shows "(case fs (path_join (abs_path xs) ''.gitignore'') of
            Content content \<Rightarrow> acc @ [content] | Unreadable \<Rightarrow> acc | Absent \<Rightarrow> acc)
         = acc @ gitignore_contents fs (abs_path xs)"
  by (simp add: path_join_gitignore [OF assms] gitignore_contents_def split: file_read.splits)

lemma abs_path_not_root:
  assumes "xs \<noteq> []" "\<forall>s\<in>set xs. clean_seg s"
  shows "abs_path xs \<noteq> parse_root (abs_path xs)"
proof -
  from abs_path_long [OF assms(1)] assms obtain c cs where "abs_path xs = CHR ''/'' # c # cs"
    by (auto simp: clean_seg_def)
  then show ?thesis by (simp add: parse_root_def)
qed

lemma getGitignoreRules_loop_inside:
  assumes "rootSegs \<noteq> []" "\<forall>s\<in>set rootSegs. clean_seg s" "\<forall>s\<in>set segs. clean_seg s"
  shows "getGitignoreRules_loop fs (abs_path rootSegs) (abs_path (rootSegs @ segs)) acc
           = Some (acc @ merged_rules fs rootSegs segs)"
  using assms(3)
proof (induction segs arbitrary: acc rule: rev_induct)
  case Nil
  show ?case
    using abs_path_not_root [OF assms(1,2)] loop_step_contents [OF assms(1,2)]
    by (subst getGitignoreRules_loop.simps) (simp add: merged_rules_Nil Let_def)
next
  case (snoc s segs)
  let ?xs = "rootSegs @ segs"
  let ?cur = "abs_path (rootSegs @ segs @ [s])"
  have cl: "\<forall>t\<in>set (?xs @ [s]). clean_seg t" using assms(2) snoc.prems by auto
  have ne: "?xs @ [s] \<noteq> []" by simp
  have pre: "prefix (abs_path rootSegs) ?cur" by (simp add: abs_path_append)
  have neq: "?cur \<noteq> abs_path rootSegs" by (simp add: abs_path_append abs_path_def)
  have nr: "?cur \<noteq> parse_root ?cur" using abs_path_not_root [OF ne cl] by simp
  have dn: "path_dirname ?cur = abs_path ?xs"
    using path_dirname_abs_path [of ?xs s] assms(1,2) snoc.prems by (cases rootSegs) auto
  have st: "(case fs (path_join ?cur ''.gitignore'') of
            Content content \<Rightarrow> acc @ [content] | Unreadable \<Rightarrow> acc | Absent \<Rightarrow> acc)
         = acc @ gitignore_contents fs ?cur"
    using loop_step_contents [OF ne cl] by simp
  have ih: "getGitignoreRules_loop fs (abs_path rootSegs) (abs_path ?xs) (acc @ gitignore_contents fs ?cur)
              = Some ((acc @ gitignore_contents fs ?cur) @ merged_rules fs rootSegs segs)"
    using snoc.IH snoc.prems by simp
  show ?case
    by (subst getGitignoreRules_loop.simps) (simp add: pre neq nr dn st ih merged_rules_snoc Let_def)
qed

lemma path_dirname_Cons:
  "path_dirname (c # cs) =
     (let scan = dropWhile (\<lambda>c. c \<noteq> CHR ''/'') (dropWhile (\<lambda>c. c = CHR ''/'') (rev cs))
      in if scan = [] then (if c = CHR ''/'' then ''/'' else ''.'')
         else if c = CHR ''/'' \<and> tl scan = [] then ''//''
         else c # rev (tl scan))"
  unfolding path_dirname_def Let_def by (simp only: list.distinct list.sel if_False)

lemma path_dirname_shorter:
  assumes "cur \<noteq> ''/''"
  shows "length (path_dirname cur) < length cur \<or> path_dirname cur = ''.''"
proof (cases cur)
  case Nil
  then show ?thesis by (simp add: path_dirname_def)
next
  case (Cons c cs)
  define r1 where "r1 = dropWhile (\<lambda>c. c = CHR ''/'') (rev cs)"
  define scan where "scan = dropWhile (\<lambda>c. c \<noteq> CHR ''/'') r1"
  have d: "path_dirname cur =
      (if scan = [] then (if c = CHR ''/'' then ''/'' else ''.'')
         else if c = CHR ''/'' \<and> tl scan = [] then ''//''
         else c # rev (tl scan))"
    unfolding Cons path_dirname_Cons scan_def r1_def Let_def ..
  have l1: "length r1 \<le> length cs"
    unfolding r1_def using length_dropWhile_le [of "\<lambda>c. c = CHR ''/''" "rev cs"] by simp
  show ?thesis
  proof (cases "scan = []")
    case True
    show ?thesis
    proof (cases "c = CHR ''/''")
      case c: True
      with assms Cons have "cs \<noteq> []" by auto
      from d True c have pd: "path_dirname cur = ''/''" by simp
      have "length (path_dirname cur) = 1" by (simp add: pd)
      moreover have "length cur \<ge> 2" using \<open>cs \<noteq> []\<close> by (cases cs) (simp_all add: Cons(1))
      ultimately show ?thesis by simp
    next
      case False
      from d True False have pd: "path_dirname cur = ''.''" by simp
      then show ?thesis ..
    qed
  next
    case False
    then have r1: "r1 \<noteq> []" unfolding scan_def by auto
    then have h: "hd r1 \<noteq> CHR ''/''"
      unfolding r1_def using hd_dropWhile [of "\<lambda>c. c = CHR ''/''" "rev cs"] by simp
    have tk: "takeWhile (\<lambda>c. c \<noteq> CHR ''/'') r1 \<noteq> []"
      using r1 h by (cases r1) auto
    have "takeWhile (\<lambda>c. c \<noteq> CHR ''/'') r1 @ scan = r1"
      unfolding scan_def by simp
    from arg_cong [OF this, of length]
    have "length r1 = length (takeWhile (\<lambda>c. c \<noteq> CHR ''/'') r1) + length scan"
      by simp
    with tk have "length scan < length r1" by simp
    with l1 have lt: "length scan < length cs" by simp
    from False have ge: "length scan \<ge> 1" by (cases scan) auto
    have tl: "length (tl scan) = length scan - 1" by simp
    show ?thesis
    proof (cases "c = CHR ''/'' \<and> tl scan = []")
      case True
      with tl ge have "length scan = 1" by simp
      with lt have "length cs \<ge> 2" by simp
      from d True False have pd: "path_dirname cur = ''//''" by simp
      have "length (path_dirname cur) = 2" by (simp add: pd)
      moreover have "length cur \<ge> 3" using \<open>length cs \<ge> 2\<close> by (simp add: Cons(1))
      ultimately show ?thesis by simp
    next
      case f: False
      with False d have "path_dirname cur = c # rev (tl scan)" by simp
      then have "length (path_dirname cur) = length scan" using tl ge by simp
      with lt have "length (path_dirname cur) < length cur"
        by (simp add: Cons(1))
      then show ?thesis ..
    qed
  qed
qed

lemma getGitignoreRules_loop_returns:
  assumes "wsPath \<noteq> []"
  shows "\<exists>r. getGitignoreRules_loop fs wsPath cur acc = Some r"
proof (induction cur arbitrary: acc rule: measure_induct_rule [where f = "\<lambda>cur. if cur = ''.'' then 0 else Suc (length cur)"])
  case (less cur)
  show ?case
  proof (cases "prefix wsPath cur \<and> cur \<noteq> parse_root cur")
    case False
    then show ?thesis by (subst getGitignoreRules_loop.simps) auto
  next
    case True
    show ?thesis
    proof (cases "cur = wsPath")
      case eq: True
      with True show ?thesis by (subst getGitignoreRules_loop.simps) (simp add: Let_def)
    next
      case neq: False
      have nslash: "cur \<noteq> ''/''" using True by (auto simp: parse_root_def)
      have ndot: "cur \<noteq> ''.''"
      proof
        assume "cur = ''.''"
        with True have "prefix wsPath ''.''" by simp
        with assms neq \<open>cur = ''.''\<close> show False by (cases wsPath) (auto simp: prefix_Cons)
      qed
      have "(if path_dirname cur = ''.'' then 0 else Suc (length (path_dirname cur)))
             < (if cur = ''.'' then 0 else Suc (length cur))"
        using path_dirname_shorter [OF nslash] ndot by auto
      from less.IH [OF this] obtain r where
        "getGitignoreRules_loop fs wsPath (path_dirname cur)
           (case fs (path_join cur ''.gitignore'') of
                  Content content \<Rightarrow> acc @ [content]
                | Unreadable \<Rightarrow> acc
                | Absent \<Rightarrow> acc) = Some r"
        by blast
      with True neq show ?thesis
        by (subst getGitignoreRules_loop.simps) (simp add: Let_def)
    qed
  qed
qed

text \<open>
  So \<^verbatim>\<open>shouldIgnoreFile\<close> comes to an end for every path, with a verdict or with the exception
  of \<^verbatim>\<open>ignores\<close>, the workspace path being non-empty.
\<close>

lemma shouldIgnoreFile_returns:
  assumes "workspacePath P \<noteq> []"
  shows "\<exists>v cache'. shouldIgnoreFile P fs filePath exclusionGlobs cache = Some (v, cache')"
proof -
  from getGitignoreRules_loop_returns [OF assms, of fs "path_dirname filePath" "[]"]
  obtain rules where
    "getGitignoreRules_loop fs (workspacePath P) (path_dirname filePath) [] = Some rules"
    by blast
  then show ?thesis
    by (cases "cache (path_dirname filePath)";
        cases "ignores P (case cache (path_dirname filePath) of None \<Rightarrow> rules | Some r \<Rightarrow> r)
                 (path_relative P (path_dirname filePath) filePath)")
      (simp_all add: shouldIgnoreFile_def getGitignoreRulesForPath_def Let_def)
qed

section \<open>Facts about the tracker\<close>

lemma set_set_add: "set (set_add x xs) = insert x (set xs)"
  by (auto simp: set_add_def)

lemma fold_set_add:
  "set (fold (\<lambda>file paths. set_add (f file) paths) files acc) = f ` set files \<union> set acc"
  by (induction files arbitrary: acc) (auto simp: set_set_add)

lemma flood_iter:
  "needReInit ((incrementEventAndDetectFlood ^^ n) s) = (needReInit s \<or> (0 < n \<and> 102 \<le> eventCount s + n))
   \<and> eventCount ((incrementEventAndDetectFlood ^^ n) s) = eventCount s + n"
proof (induction n)
  case 0
  then show ?case by simp
next
  case (Suc n)
  then show ?case by (auto simp: incrementEventAndDetectFlood_def EVENT_FLOOD_SZ_def Let_def)
qed

lemma addEventToNotifyQueue_after_fulfilled:
  "fst (q s) = Fulfilled \<Longrightarrow> addEventToNotifyQueue t q s = (Fulfilled, snd (t (snd (q s))))"
  by (cases "q s"; cases "t (snd (q s))")
    (auto simp: addEventToNotifyQueue_def promise_catch_def promise_then_def promise_resolve_def
      split: settled.splits)

lemma fold_addEventToNotifyQueue:
  "\<forall>s. q s = (Fulfilled, f s) \<Longrightarrow>
     fold addEventToNotifyQueue tasks q s = (Fulfilled, run_in_order tasks (f s))"
proof (induction tasks arbitrary: q f)
  case Nil
  then show ?case by simp
next
  case (Cons t ts)
  have "\<forall>s. addEventToNotifyQueue t q s = (Fulfilled, snd (t (f s)))"
    using Cons.prems by (simp add: addEventToNotifyQueue_after_fulfilled)
  from Cons.IH [OF this] show ?case by simp
qed

section \<open>Facts about the queue of event tasks\<close>

text \<open>
  While a task of the chain awaits \<^verbatim>\<open>stat\<close>, the next one cannot start; every watcher task
  counts its event before it consults the ignore filter; and a creation followed by a
  deletion of the same path, both let through by the filter, leaves the path untracked
  however \<^verbatim>\<open>stat\<close> settles.
\<close>

lemma chain_waits_for_stat:
  "awaitingStat s = Some fsPath \<Longrightarrow> step P (StartNext fs) s = None"
  by (simp add: step_def)

lemma watcher_tasks_count_first:
  assumes "t \<in> {Created fsPath, Deleted fsPath, Changed fsPath}"
    and "start_task P fs t s = Some (reached, s')"
  shows "eventCount s' = Suc (eventCount s)"
proof -
  have g: "eventCount s1 = Suc (eventCount s)"
    if "shouldIgnoreGlob P fs fsPath (configGlobsToIgnore P) (incrementEventAndDetectFlood s) = Some (v, s1)"
    for v s1
    using that
    by (auto simp: shouldIgnoreGlob_def incrementEventAndDetectFlood_def Let_def
        split: option.splits if_splits sum.splits)
  have r: "eventCount (snd (removeFilePath P fsPath s1)) = eventCount s1" for s1
    by (simp add: removeFilePath_def set_delete_def Let_def)
  have tr: "eventCount (triggerWorkspaceDidUpdate s1) = eventCount s1" for s1
    by (simp add: triggerWorkspaceDidUpdate_def)
  obtain v s1 where
    v: "shouldIgnoreGlob P fs fsPath (configGlobsToIgnore P) (incrementEventAndDetectFlood s) = Some (v, s1)"
    using assms
    by (cases "shouldIgnoreGlob P fs fsPath (configGlobsToIgnore P) (incrementEventAndDetectFlood s)")
      (auto simp: start_task_def onDidCreate_task_def onDidDelete_task_def onDidChange_task_def)
  note c = g [OF v]
  from assms consider "t = Created fsPath" | "t = Deleted fsPath" | "t = Changed fsPath" by auto
  then show ?thesis
  proof cases
    case 1
    with assms(2) v c show ?thesis
      by (cases v) (auto simp: start_task_def onDidCreate_task_def split: if_splits)
  next
    case 2
    obtain removed s2 where rm: "removeFilePath P fsPath s1 = (removed, s2)"
      by (cases "removeFilePath P fsPath s1")
    with r [of s1] have "eventCount s2 = eventCount s1" by simp
    with 2 assms(2) v c rm tr show ?thesis
      by (cases v) (auto simp: start_task_def onDidDelete_task_def split: if_splits)
  next
    case 3
    with assms(2) v c r show ?thesis
      by (cases v) (auto simp: start_task_def onDidChange_task_def split: if_splits)
  qed
qed

lemma removeFilePath_absent:
  "normalizeFilePath P fsPath \<notin> set (filePaths (snd (removeFilePath P fsPath s)))"
  by (simp add: removeFilePath_def set_delete_def Let_def)

lemma shouldIgnoreGlob_never:
  assumes "\<forall>rules. ignores P rules (path_relative P (path_dirname fsPath) fsPath) = Inr False"
    and "\<forall>globs. \<not> isMatch P fsPath globs"
    and "shouldIgnoreGlob P fs fsPath globs s = Some (v, s1)"
  shows "v = Inr False"
  using assms
  by (auto simp: shouldIgnoreGlob_def shouldIgnoreFile_def Let_def
      split: option.splits if_splits sum.splits)

lemma delete_task_removes:
  assumes "\<forall>rules. ignores P rules (path_relative P (path_dirname fsPath) fsPath) = Inr False"
    and "\<forall>globs. \<not> isMatch P fsPath globs"
    and "onDidDelete_task P fs fsPath s = Some (reached, s')"
  shows "reached = Settled \<and> normalizeFilePath P fsPath \<notin> set (filePaths s')"
proof -
  obtain v s1 where
    g: "shouldIgnoreGlob P fs fsPath (configGlobsToIgnore P) (incrementEventAndDetectFlood s) = Some (v, s1)"
    using assms(3)
    by (cases "shouldIgnoreGlob P fs fsPath (configGlobsToIgnore P) (incrementEventAndDetectFlood s)")
      (auto simp: onDidDelete_task_def)
  from shouldIgnoreGlob_never [OF assms(1,2) g] have ni: "v = Inr False" .
  obtain removed s2 where r: "removeFilePath P fsPath s1 = (removed, s2)"
    by (cases "removeFilePath P fsPath s1")
  from removeFilePath_absent [of P fsPath s1] r
  have a: "normalizeFilePath P fsPath \<notin> set (filePaths s2)" by simp
  from assms(3) have "reached = Settled" "s' = (if removed then triggerWorkspaceDidUpdate s2 else s2)"
    unfolding onDidDelete_task_def g ni by (auto simp: r split: if_splits)
  with a show ?thesis by (simp add: triggerWorkspaceDidUpdate_def)
qed

lemma step_WatcherEvent:
  "step P (WatcherEvent t) s =
     (case project_root P of None \<Rightarrow> None | Some root \<Rightarrow> Some (enqueueTask t s))"
  by (simp add: step_def)

lemma step_StartNext:
  "awaitingStat s = None \<Longrightarrow> notifyQueue s = t # rest \<Longrightarrow>
     step P (StartNext fs) s =
       (case start_task P fs t (s\<lparr>notifyQueue := rest\<rparr>) of
          None \<Rightarrow> None
        | Some (reached, s') \<Rightarrow> Some (s'\<lparr>awaitingStat := waitingFor reached\<rparr>))"
  by (simp add: step_def)

lemma step_StatSettles:
  "awaitingStat s = Some fsPath \<Longrightarrow>
     step P (StatSettles st) s = Some (afterStat P fsPath st (s\<lparr>awaitingStat := None\<rparr>))"
  by (simp add: step_def)

lemma shouldIgnoreGlob_keeps:
  assumes "shouldIgnoreGlob P fs fsPath globs (incrementEventAndDetectFlood s) = Some (v, s1)"
  shows "filePaths s1 = filePaths s \<and> workspaceDidUpdateTimeout s1 = workspaceDidUpdateTimeout s
       \<and> timerPending s1 = timerPending s \<and> provider s1 = provider s
       \<and> notifyQueue s1 = notifyQueue s \<and> awaitingStat s1 = awaitingStat s
       \<and> pendingScans s1 = pendingScans s"
  using assms
  by (auto simp: shouldIgnoreGlob_def incrementEventAndDetectFlood_def Let_def
      split: option.splits if_splits sum.splits)

lemma afterStat_keeps:
  "notifyQueue (afterStat P fsPath st s) = notifyQueue s
   \<and> awaitingStat (afterStat P fsPath st s) = awaitingStat s"
  by (cases st) (simp_all add: afterStat_def addFilePath_def triggerWorkspaceDidUpdate_def Let_def)

lemma run_Cons_Some:
  "run P (a # as) s = Some s' \<longleftrightarrow> (\<exists>m. step P a s = Some m \<and> run P as m = Some s')"
  by (simp split: option.splits)

lemma create_then_delete_absent:
  assumes "\<forall>rules. ignores P rules (path_relative P (path_dirname fsPath) fsPath) = Inr False"
    and "\<forall>globs. \<not> isMatch P fsPath globs"
    and "awaitingStat s = None" "notifyQueue s = []"
    and "run P [WatcherEvent (Created fsPath), WatcherEvent (Deleted fsPath),
                StartNext fs1, StatSettles st, StartNext fs2] s = Some s'"
  shows "normalizeFilePath P fsPath \<notin> set (filePaths s')"
proof -
  let ?s1 = "enqueueTask (Created fsPath) s"
  let ?s2 = "enqueueTask (Deleted fsPath) ?s1"
  from assms(5) obtain m1 where e1: "step P (WatcherEvent (Created fsPath)) s = Some m1"
    and r2: "run P [WatcherEvent (Deleted fsPath), StartNext fs1, StatSettles st, StartNext fs2] m1 = Some s'"
    unfolding run_Cons_Some [of P "WatcherEvent (Created fsPath)"] by blast
  from e1 have m1: "m1 = ?s1"
    unfolding step_WatcherEvent by (simp split: option.splits)
  from r2 obtain m2 where e2: "step P (WatcherEvent (Deleted fsPath)) m1 = Some m2"
    and r3': "run P [StartNext fs1, StatSettles st, StartNext fs2] m2 = Some s'"
    unfolding run_Cons_Some [of P "WatcherEvent (Deleted fsPath)"] by blast
  from e2 have m2: "m2 = ?s2"
    unfolding step_WatcherEvent m1 by (simp split: option.splits)
  have q: "awaitingStat ?s2 = None" "notifyQueue ?s2 = [Created fsPath, Deleted fsPath]"
    using assms(3,4) by (simp_all add: enqueueTask_def)
  from r3' obtain s3 where s3: "step P (StartNext fs1) ?s2 = Some s3"
    and r4: "run P [StatSettles st, StartNext fs2] s3 = Some s'"
    unfolding run_Cons_Some [of P "StartNext fs1"] m2 by blast
  have st1: "start_task P fs (Created fsPath) x = onDidCreate_task P fs fsPath x" for fs x
    by (simp add: start_task_def)
  have st2: "start_task P fs (Deleted fsPath) x = onDidDelete_task P fs fsPath x" for fs x
    by (simp add: start_task_def)
  define s2q where "s2q = ?s2\<lparr>notifyQueue := [Deleted fsPath]\<rparr>"
  have s2q: "notifyQueue s2q = [Deleted fsPath]" by (simp add: s2q_def)
  from s3 have "(case onDidCreate_task P fs1 fsPath s2q of
          None \<Rightarrow> None
        | Some (reached, s') \<Rightarrow> Some (s'\<lparr>awaitingStat := waitingFor reached\<rparr>)) = Some s3"
    unfolding step_StartNext [OF q] st1 s2q_def .
  then obtain reached c where
    c: "onDidCreate_task P fs1 fsPath s2q = Some (reached, c)"
    and s3': "s3 = c\<lparr>awaitingStat := waitingFor reached\<rparr>"
    by (cases "onDidCreate_task P fs1 fsPath s2q") auto
  obtain v c' where
    g: "shouldIgnoreGlob P fs1 fsPath (configGlobsToIgnore P) (incrementEventAndDetectFlood s2q)
          = Some (v, c')"
    using c
    by (cases "shouldIgnoreGlob P fs1 fsPath (configGlobsToIgnore P) (incrementEventAndDetectFlood s2q)")
      (auto simp: onDidCreate_task_def)
  from shouldIgnoreGlob_never [OF assms(1,2) g] have ni: "v = Inr False" .
  from c have w: "reached = AwaitStat fsPath" and cc: "c' = c"
    unfolding onDidCreate_task_def g ni by simp_all
  from shouldIgnoreGlob_keeps [OF g] s2q cc have cq: "notifyQueue c = [Deleted fsPath]"
    by simp
  have a3: "awaitingStat s3 = Some fsPath" using s3' w by (simp add: waitingFor_def)
  from r4 obtain m4 where e4: "step P (StatSettles st) s3 = Some m4"
    and r5': "run P [StartNext fs2] m4 = Some s'"
    unfolding run_Cons_Some [of P "StatSettles st"] by blast
  from e4 have m4: "m4 = afterStat P fsPath st (s3\<lparr>awaitingStat := None\<rparr>)"
    unfolding step_StatSettles [OF a3] by simp
  from r5' have r5: "step P (StartNext fs2) (afterStat P fsPath st (s3\<lparr>awaitingStat := None\<rparr>)) = Some s'"
    unfolding run_Cons_Some [of P "StartNext fs2"] m4 by simp
  let ?s4 = "afterStat P fsPath st (s3\<lparr>awaitingStat := None\<rparr>)"
  have q4: "awaitingStat ?s4 = None" "notifyQueue ?s4 = Deleted fsPath # []"
    using cq s3' afterStat_keeps [of P fsPath st "s3\<lparr>awaitingStat := None\<rparr>"] by simp_all
  from r5 have "(case onDidDelete_task P fs2 fsPath (?s4\<lparr>notifyQueue := []\<rparr>) of
          None \<Rightarrow> None
        | Some (reached, s') \<Rightarrow> Some (s'\<lparr>awaitingStat := waitingFor reached\<rparr>)) = Some s'"
    unfolding step_StartNext [OF q4] st2 .
  then obtain reached' d where
    d: "onDidDelete_task P fs2 fsPath (?s4\<lparr>notifyQueue := []\<rparr>) = Some (reached', d)"
    and s': "s' = d\<lparr>awaitingStat := waitingFor reached'\<rparr>"
    by (cases "onDidDelete_task P fs2 fsPath (?s4\<lparr>notifyQueue := []\<rparr>)") auto
  from delete_task_removes [OF assms(1,2) d] s' show ?thesis by simp
qed

section \<open>The claims\<close>


text \<open>
  Claim C1.  The queued scan is not serialized with the tasks behind it.  A directory
  \<^verbatim>\<open>d\<close> is created, the timer fires and queues the scan, the scan task starts.  Its promise
  settles while the scan still awaits the lister (first equation): the chain is free.  A
  directory \<^verbatim>\<open>e\<close> is created and its task runs to its end while the scan is under way.
  When the listing (taken before \<^verbatim>\<open>e\<close> existed) arrives, the rest of the scan replaces the
  set and clears \<^verbatim>\<open>needReInit\<close>: \<^verbatim>\<open>e\<close> is lost and no scan is pending or queued (second
  equation).
\<close>

theorem rescan_overlaps_later_task:
  "map_option (\<lambda>s. (awaitingStat s, pendingScans s, notifyQueue s))
     (run proj
        [WatcherEvent (Created ''/proj/d''), StartNext no_gitignore, StatSettles (StatType True),
         TimerFires, StartNext no_gitignore]
        (new_tracker (Some [])))
     = Some (None, 1, [])
   \<and> map_option (\<lambda>s. (filePaths s, needReInit s, notifyQueue s, pendingScans s, timerPending s))
     (run proj
        [WatcherEvent (Created ''/proj/d''), StartNext no_gitignore, StatSettles (StatType True),
         TimerFires, StartNext no_gitignore,
         WatcherEvent (Created ''/proj/e''), StartNext no_gitignore, StatSettles (StatType True),
         ListingSettles (Listing [''/proj/d/''] False), TimerFires]
        (new_tracker (Some [])))
     = Some ([''/proj/d/''], False, [], 0, False)"
  by code_simp

text \<open>
  Claim C2.  The code compares the counter's value before the increment with the threshold:
  on a fresh tracker, \<open>n\<close> raw events leave \<^verbatim>\<open>needReInit\<close> set exactly when \<open>n\<close> is at least
  102.  After 101 events it is still unset.
\<close>

theorem flood_flag_after_n_events:
  "needReInit ((incrementEventAndDetectFlood ^^ n) (new_tracker consumer)) = (102 \<le> n)"
  by (auto simp: flood_iter new_tracker_def)

text \<open>
  Claim C3.  A \<^verbatim>\<open>.gitignore\<close> is created in a project whose root already has a cached
  (empty) rule set, and \<^verbatim>\<open>stat\<close> of the new file fails: \<^verbatim>\<open>addFilePath\<close> neither clears
  the cache nor sets \<^verbatim>\<open>needReInit\<close>.  The path \<^verbatim>\<open>build\<close> created next, which the new file
  ignores, is judged with the stale rule set and tracked.
\<close>

theorem gitignore_probe_failure_keeps_cache:
  "path_basename (normalizeFilePath proj ''/proj/.gitignore'') = ''.gitignore''
   \<and> map_option (\<lambda>s. (filePaths s, needReInit s, gitignoreCache s ''/proj''))
     (run proj
        [WatcherEvent (Created ''/proj/a''), StartNext no_gitignore, StatSettles (StatType False),
         WatcherEvent (Created ''/proj/.gitignore''), StartNext root_gitignore, StatSettles StatFailed,
         WatcherEvent (Created ''/proj/build''), StartNext root_gitignore, StatSettles (StatType False)]
        (new_tracker (Some [])))
   = Some ([''/proj/a'', ''/proj/.gitignore'', ''/proj/build''], False, Some [])"
  by code_simp

text \<open>
  Claim C4.  Without a project root \<^verbatim>\<open>initializeFilePaths\<close> changes nothing, awaited or
  queued.  With one, it empties the set and asks the lister for at most 1000 entries of the
  root, recursively; when the listing arrives, whatever state \<open>mid\<close> the tracker is in by
  then, the set becomes the normalized listing, \<^verbatim>\<open>needReInit\<close> is cleared and
  \<^verbatim>\<open>workspaceDidUpdate\<close> runs at once: a consumer that is still there receives one more
  message, with at most 1000 paths.
\<close>

theorem initializeFilePaths_contract:
  "(project_root P = None \<longrightarrow>
      initializeFilePaths P listFiles s = s \<and> rescan_task P s = s)
   \<and> (project_root P = Some root \<longrightarrow>
        initializeFilePaths_begin P s = (Some (root, True, 1000), s\<lparr>filePaths := []\<rparr>)
      \<and> (let s' = initializeFilePaths_resume P (Listing files truncated) mid
          in set (filePaths s') = normalizeFilePath P ` set files
           \<and> \<not> needReInit s'
           \<and> s' = workspaceDidUpdate P (mid\<lparr>filePaths := filePaths s', needReInit := False\<rparr>)
           \<and> (\<forall>inbox. provider mid = Some inbox \<longrightarrow>
                (\<exists>payload. provider s' = Some (inbox @ [WorkspaceUpdated payload])
                   \<and> length payload = min 1000 (length (filePaths s')))))
      \<and> (listFiles root True 1000 = Listing files truncated \<longrightarrow>
           initializeFilePaths P listFiles s =
             initializeFilePaths_resume P (Listing files truncated) (s\<lparr>filePaths := []\<rparr>)))"
  by (auto simp: initializeFilePaths_def initializeFilePaths_begin_def rescan_task_def
      initializeFilePaths_resume_def workspaceDidUpdate_def maxContextFiles_def fold_set_add
      Let_def split: option.splits)

text \<open>A scan of \<^verbatim>\<open>/proj\<close> that finds a file and a directory.\<close>

theorem initializeFilePaths_contract_witness:
  "(let s = (new_tracker (Some []))\<lparr>filePaths := [''/proj/old''], needReInit := True\<rparr>;
        s' = initializeFilePaths proj (\<lambda>root recursive limit. Listing [''/proj/a.txt'', ''/proj/sub/''] False) s
    in project_root proj = Some ''/proj''
     \<and> set (filePaths s') = {''/proj/a.txt'', ''/proj/sub/''}
     \<and> \<not> needReInit s'
     \<and> provider s' = Some [WorkspaceUpdated [''a.txt'', ''sub/'']])"
proof -
  let ?s = "(new_tracker (Some []))\<lparr>filePaths := [''/proj/old''], needReInit := True\<rparr>"
  let ?L = "\<lambda>root recursive limit. Listing [''/proj/a.txt'', ''/proj/sub/''] False"
  let ?s' = "initializeFilePaths_resume proj (Listing [''/proj/a.txt'', ''/proj/sub/''] False) (?s\<lparr>filePaths := []\<rparr>)"
  have r: "project_root proj = Some ''/proj''" by code_simp
  have n: "normalizeFilePath proj ` set [''/proj/a.txt'', ''/proj/sub/''] = {''/proj/a.txt'', ''/proj/sub/''}"
    by code_simp
  have p: "provider ?s' = Some [WorkspaceUpdated [''a.txt'', ''sub/'']]" by code_simp
  from initializeFilePaths_contract
    [of proj ?L ?s "''/proj''" "[''/proj/a.txt'', ''/proj/sub/'']" False "?s\<lparr>filePaths := []\<rparr>"] r
  have "initializeFilePaths proj ?L ?s = ?s'"
    and "set (filePaths ?s') = normalizeFilePath proj ` set [''/proj/a.txt'', ''/proj/sub/'']"
    and "\<not> needReInit ?s'"
    by (simp_all add: Let_def)
  with r n p show ?thesis by (simp add: Let_def)
qed

text \<open>
  Claim C5.  \<^verbatim>\<open>removeFilePath\<close> normalizes its argument and deletes that entry from the
  set; when the entry was not there it sets \<^verbatim>\<open>needReInit\<close> and deletes the entry with the
  directory suffix instead.  It returns true exactly when one of the two was in the set.
  (When the entry was there, \<^verbatim>\<open>needReInit\<close> changes only for a \<^verbatim>\<open>.gitignore\<close>.)
\<close>

theorem removeFilePath_contract:
  "(let n = normalizeFilePath P rawPath;
        tracked = set (filePaths s);
        (removed, s') = removeFilePath P rawPath s
    in set (filePaths s') = (if n \<in> tracked then tracked - {n} else tracked - {n @ ''/''})
     \<and> (n \<notin> tracked \<longrightarrow> needReInit s')
     \<and> (n \<in> tracked \<and> path_basename n \<noteq> ''.gitignore'' \<longrightarrow> needReInit s' = needReInit s)
     \<and> removed = (n \<in> tracked \<or> n @ ''/'' \<in> tracked))"
  by (auto simp: removeFilePath_def set_delete_def Let_def)

text \<open>Removing a directory that is tracked with its suffix.\<close>

theorem removeFilePath_contract_witness:
  "(let s = (new_tracker None)\<lparr>filePaths := [''/proj/a.txt'', ''/proj/sub/'']\<rparr>;
        result = removeFilePath proj ''/proj/sub'' s
    in normalizeFilePath proj ''/proj/sub'' \<notin> set (filePaths s)
     \<and> needReInit (snd result) \<and> fst result \<and> set (filePaths (snd result)) = {''/proj/a.txt''})"
proof -
  let ?s = "(new_tracker None)\<lparr>filePaths := [''/proj/a.txt'', ''/proj/sub/'']\<rparr>"
  have n: "normalizeFilePath proj ''/proj/sub'' = ''/proj/sub''" by code_simp
  have f: "filePaths ?s = [''/proj/a.txt'', ''/proj/sub/'']" by simp
  from removeFilePath_contract [of proj "''/proj/sub''" ?s]
  show ?thesis
    unfolding Let_def n f by (auto simp: case_prod_beta)
qed

text \<open>
  Claim C6.  Whatever tasks were submitted through \<^verbatim>\<open>addEventToNotifyQueue\<close>, the chain
  settles fulfilled, never rejected, and the state it leaves is the one reached by running
  every task once, in the order of submission, each on the state its predecessor left: a
  task that throws or rejects is caught at its own link, the tasks behind it still run, and
  none runs a second time.
\<close>

theorem notifyQueue_swallows_failures:
  "submitted tasks s = (Fulfilled, run_in_order tasks s)"
  unfolding submitted_def
  by (rule fold_addEventToNotifyQueue [where f = "\<lambda>s. s"]) (simp add: promise_resolve_def)

text \<open>Three tasks that log their names; the second one rejects after writing.\<close>

theorem notifyQueue_swallows_failures_witness:
  "submitted [(\<lambda>log. (Fulfilled, log @ [''a''])),
              (\<lambda>log. (Rejected ''boom'', log @ [''b''])),
              (\<lambda>log. (Fulfilled, log @ [''c'']))] []
     = (Fulfilled, [''a'', ''b'', ''c''])"
  using notifyQueue_swallows_failures
    [of "[(\<lambda>log. (Fulfilled, log @ [''a''])),
          (\<lambda>log. (Rejected ''boom'', log @ [''b''])),
          (\<lambda>log. (Fulfilled, log @ [''c'']))]" "[]"]
  by simp

text \<open>
  Claim C7, amended.  For every path whose directory lies inside the project, written with
  its segments below the root (the root not being the file system's root), and whose name
  relative to that directory the \<^verbatim>\<open>ignore\<close> library accepts, \<^verbatim>\<open>shouldIgnoreFile\<close> returns: true
  if the rule set of the directory matches the relative name, otherwise whether the path
  matches one of the exclusion globs.  The rule set is the cached one when the directory has
  an entry in the cache; otherwise it is the contents of the readable \<^verbatim>\<open>.gitignore\<close> files
  of the directory, its parent, and so on up to the project root, and is cached.
\<close>

theorem shouldIgnoreFile_inside_project:
  assumes "rootSegs \<noteq> []"
    and "\<forall>s\<in>set (rootSegs @ segs). clean_seg s"
    and "workspacePath P = abs_path rootSegs"
    and "path_dirname filePath = abs_path (rootSegs @ segs)"
    and "rules = (case cache (path_dirname filePath) of
                    Some cached \<Rightarrow> cached
                  | None \<Rightarrow> merged_rules fs rootSegs segs)"
    and "ignores P rules (path_relative P (path_dirname filePath) filePath) = Inr matched"
  shows "shouldIgnoreFile P fs filePath exclusionGlobs cache =
           Some (Inr (matched \<or> isMatch P filePath exclusionGlobs),
                 cache(path_dirname filePath \<mapsto> rules))"
proof (cases "cache (path_dirname filePath)")
  case (Some cached)
  then have "cache(path_dirname filePath \<mapsto> cached) = cache" by (simp add: map_upd_triv)
  with Some assms(5,6) show ?thesis
    by (simp add: shouldIgnoreFile_def getGitignoreRulesForPath_def Let_def)
next
  case None
  from getGitignoreRules_loop_inside [OF assms(1), of segs fs "[]"] assms(2,3,4)
  have "getGitignoreRules_loop fs (workspacePath P) (path_dirname filePath) []
          = Some (merged_rules fs rootSegs segs)"
    by simp
  with None assms(5,6) show ?thesis
    by (simp add: shouldIgnoreFile_def getGitignoreRulesForPath_def Let_def)
qed

text \<open>
  A build directory below \<^verbatim>\<open>/proj/a\<close>, ignored by the root's \<^verbatim>\<open>.gitignore\<close>; the cache holds
  an entry for another directory.
\<close>

theorem shouldIgnoreFile_inside_project_witness:
  "[''proj''] \<noteq> [] \<and> list_all clean_seg ([''proj''] @ [''a''])
   \<and> workspacePath proj = abs_path [''proj'']
   \<and> path_dirname ''/proj/a/build'' = abs_path ([''proj''] @ [''a''])
   \<and> merged_rules root_gitignore [''proj''] [''a''] = [''build'']
   \<and> ignores proj [''build''] (path_relative proj (path_dirname ''/proj/a/build'') ''/proj/a/build'')
       = Inr True
   \<and> shouldIgnoreFile proj root_gitignore ''/proj/a/build'' [] [''/proj'' \<mapsto> []]
       = Some (Inr True, [''/proj'' \<mapsto> [], ''/proj/a'' \<mapsto> [''build'']])"
proof -
  have h1: "[''proj''] \<noteq> []" by simp
  have c: "list_all clean_seg ([''proj''] @ [''a''])" by code_simp
  then have h2: "\<forall>s\<in>set ([''proj''] @ [''a'']). clean_seg s" by (simp add: list_all_iff)
  have h3: "workspacePath proj = abs_path [''proj'']" by code_simp
  have d: "path_dirname ''/proj/a/build'' = ''/proj/a''" by code_simp
  have h4: "path_dirname ''/proj/a/build'' = abs_path ([''proj''] @ [''a''])" by code_simp
  have m: "merged_rules root_gitignore [''proj''] [''a''] = [''build'']" by code_simp
  have h5: "[''build''] = (case [''/proj'' \<mapsto> []] (path_dirname ''/proj/a/build'') of
                    Some cached \<Rightarrow> cached
                  | None \<Rightarrow> merged_rules root_gitignore [''proj''] [''a''])"
    by (simp add: d m)
  have h6: "ignores proj [''build'']
      (path_relative proj (path_dirname ''/proj/a/build'') ''/proj/a/build'') = Inr True"
    by code_simp
  from shouldIgnoreFile_inside_project
    [where rootSegs = "[''proj'']" and segs = "[''a'']" and P = proj and fs = root_gitignore
       and filePath = "''/proj/a/build''" and cache = "[''/proj'' \<mapsto> []]"
       and rules = "[''build'']" and matched = True and exclusionGlobs = "[]",
     OF h1 h2 h3 h4 h5 h6]
  have "shouldIgnoreFile proj root_gitignore ''/proj/a/build'' [] [''/proj'' \<mapsto> []]
       = Some (Inr True, [''/proj'' \<mapsto> [], ''/proj/a'' \<mapsto> [''build'']])"
    by (simp add: d)
  with h1 c h3 h4 m h6 show ?thesis by blast
qed

text \<open>
  As stated for every path, C7 fails.  Inside the project, \<^verbatim>\<open>/proj/a/..\<close> has the relative
  name \<^verbatim>\<open>..\<close>, on which \<^verbatim>\<open>ignores\<close> throws: no verdict is returned.  With the project at the
  root of the file system, the root's own \<^verbatim>\<open>.gitignore\<close> is never read: \<^verbatim>\<open>/a/x\<close> is not
  ignored although that file lists \<^verbatim>\<open>x\<close>.  For \<^verbatim>\<open>/project/x/f\<close>, outside the project
  \<^verbatim>\<open>/proj\<close>, the walk gathers \<^verbatim>\<open>/project/.gitignore\<close> and the path is ignored.  And a
  directory with a cache entry is judged by that entry, not by the files: \<^verbatim>\<open>/proj/build\<close> is
  not ignored although the root's \<^verbatim>\<open>.gitignore\<close> lists it.
\<close>

theorem shouldIgnoreFile_not_for_every_path:
  "map_option fst (shouldIgnoreFile proj root_gitignore ''/proj/a/..'' [] Map.empty)
     = Some (Inl RangeError)
   \<and> map_option fst (shouldIgnoreFile at_root slash_gitignore ''/a/x'' [] Map.empty)
     = Some (Inr False)
   \<and> slash_gitignore ''/.gitignore'' = Content ''x''
   \<and> ignores at_root [''x''] (path_relative at_root (path_dirname ''/a/x'') ''/a/x'') = Inr True
   \<and> map_option fst (shouldIgnoreFile proj sibling_gitignore ''/project/x/f'' [] Map.empty)
     = Some (Inr True)
   \<and> map_option fst (shouldIgnoreFile proj root_gitignore ''/proj/build'' [] [''/proj'' \<mapsto> []])
     = Some (Inr False)
   \<and> merged_rules root_gitignore [''proj''] [] = [''build'']
   \<and> ignores proj [''build''] (path_relative proj (path_dirname ''/proj/build'') ''/proj/build'')
     = Inr True"
  by code_simp

text \<open>
  Claim C8.  When \<^verbatim>\<open>stat\<close> fails, \<^verbatim>\<open>addFilePath\<close> returns normally: it adds exactly
  the normalized path to the set and returns it, and changes nothing else.  Nothing is
  appended to it: for an input without the trailing separator (that does not resolve to the
  file system's root) the entry added has no directory marker.
\<close>

theorem addFilePath_probe_failure:
  "addFilePath P rawPath StatFailed s =
     (normalizeFilePath P rawPath,
      s\<lparr>filePaths := set_add (normalizeFilePath P rawPath) (filePaths s)\<rparr>)
   \<and> set (filePaths (snd (addFilePath P rawPath StatFailed s)))
       = insert (normalizeFilePath P rawPath) (set (filePaths s))
   \<and> (processCwd P \<noteq> [] \<and> hd (processCwd P) = CHR ''/'' \<and> \<not> endsWithSlash rawPath
        \<and> normalizeFilePath P rawPath \<noteq> ''/''
      \<longrightarrow> \<not> endsWithSlash (fst (addFilePath P rawPath StatFailed s)))"
proof -
  have a: "addFilePath P rawPath StatFailed s =
     (normalizeFilePath P rawPath,
      s\<lparr>filePaths := set_add (normalizeFilePath P rawPath) (filePaths s)\<rparr>)"
    by (simp add: addFilePath_def Let_def)
  show ?thesis
    using normalizeFilePath_stable [of P rawPath]
    by (simp add: a set_set_add)
qed

text \<open>A file that vanished before it could be inspected.\<close>

theorem addFilePath_probe_failure_witness:
  "processCwd proj \<noteq> [] \<and> hd (processCwd proj) = CHR ''/'' \<and> \<not> endsWithSlash ''/proj/gone''
   \<and> normalizeFilePath proj ''/proj/gone'' \<noteq> ''/''
   \<and> addFilePath proj ''/proj/gone'' StatFailed (new_tracker None)
       = (''/proj/gone'', (new_tracker None)\<lparr>filePaths := [''/proj/gone'']\<rparr>)
   \<and> \<not> endsWithSlash (fst (addFilePath proj ''/proj/gone'' StatFailed (new_tracker None)))"
proof -
  have n: "normalizeFilePath proj ''/proj/gone'' = ''/proj/gone''" by code_simp
  have h: "processCwd proj \<noteq> [] \<and> hd (processCwd proj) = CHR ''/'' \<and> \<not> endsWithSlash ''/proj/gone''
     \<and> normalizeFilePath proj ''/proj/gone'' \<noteq> ''/''"
    by (simp add: n) (simp add: proj_def endsWithSlash_def)
  from addFilePath_probe_failure [of proj "''/proj/gone''" "new_tracker None"] h
  show ?thesis by (simp add: n set_add_def new_tracker_def)
qed

text \<open>
  Claim C9, amended.  For every input whose normalized form is not the bare root
  \<^verbatim>\<open>/\<close>, normalizing twice gives the same as normalizing once, and the normalized path
  ends in the separator exactly when the input does.  (\<^verbatim>\<open>process.cwd()\<close> is an absolute
  path.)
\<close>

theorem normalize_idempotent_off_root:
  assumes "processCwd P \<noteq> []" "hd (processCwd P) = CHR ''/''"
    and "normalizeFilePath P p \<noteq> ''/''"
  shows "normalizeFilePath P (normalizeFilePath P p) = normalizeFilePath P p
       \<and> endsWithSlash (normalizeFilePath P p) = endsWithSlash p"
  using assms by (rule normalizeFilePath_stable)

text \<open>A relative directory path with a \<^verbatim>\<open>..\<close> segment.\<close>

theorem normalize_idempotent_off_root_witness:
  "processCwd proj \<noteq> [] \<and> hd (processCwd proj) = CHR ''/''
   \<and> normalizeFilePath proj ''sub/x/../'' \<noteq> ''/''
   \<and> normalizeFilePath proj ''sub/x/../'' = ''/proj/sub/''
   \<and> normalizeFilePath proj (normalizeFilePath proj ''sub/x/../'') = normalizeFilePath proj ''sub/x/../''
   \<and> endsWithSlash (normalizeFilePath proj ''sub/x/../'') = endsWithSlash ''sub/x/../''"
proof -
  have h1: "processCwd proj \<noteq> []" by (simp add: proj_def)
  have h2: "hd (processCwd proj) = CHR ''/''" by (simp add: proj_def)
  have n: "normalizeFilePath proj ''sub/x/../'' = ''/proj/sub/''" by code_simp
  then have h3: "normalizeFilePath proj ''sub/x/../'' \<noteq> ''/''" by simp
  from normalize_idempotent_off_root [OF h1 h2 h3] h1 h2 h3 n show ?thesis by blast
qed

text \<open>
  As stated for every input, C9 fails: \<^verbatim>\<open>..\<close> resolves from \<^verbatim>\<open>/proj\<close> to \<^verbatim>\<open>/\<close>, which ends
  in the separator although the input does not, and which normalizes to \<^verbatim>\<open>//\<close>.
\<close>

theorem normalize_not_idempotent_at_root:
  "normalizeFilePath proj (normalizeFilePath proj ''..'') \<noteq> normalizeFilePath proj ''..''
   \<and> \<not> endsWithSlash ''..''
   \<and> endsWithSlash (normalizeFilePath proj ''..'')"
  by code_simp




end
